theory Spec2Isabelle
  imports Complex_Main "HOL-Library.List_Lexorder" "HOL-Library.AList"
begin

section \<open>Strings\<close>

text \<open>
  A Python \<open>str\<close> is a sequence of Unicode code points, modelled as a list of naturals.
  A \<open>bytes\<close> value is a list of 8-bit characters. ASCII literals of the source are written
  with \<open>str\<close>.
\<close>

type_synonym pystr = "nat list"
type_synonym bytes = "char list"

definition str :: "string \<Rightarrow> pystr" where
  "str s = map of_char s"

text \<open>
  \<open>str.isspace\<close> as CPython decides it for one code point: the ASCII whitespace
  (tab to carriage return, the four separators 0x1C to 0x1F, space) and the Unicode
  whitespace code points. \<open>str.split()\<close> with no argument splits on exactly these.
\<close>

definition isspace :: "nat \<Rightarrow> bool" where
  "isspace c = ((9 \<le> c \<and> c \<le> 13) \<or> (28 \<le> c \<and> c \<le> 32) \<or> c = 133 \<or> c = 160
      \<or> c = 5760 \<or> (8192 \<le> c \<and> c \<le> 8202) \<or> c = 8232 \<or> c = 8233
      \<or> c = 8239 \<or> c = 8287 \<or> c = 12288)"

text \<open>\<open>s.replace(a, b)\<close> for single characters \<open>a\<close> and \<open>b\<close>.\<close>

definition replace :: "nat \<Rightarrow> nat \<Rightarrow> pystr \<Rightarrow> pystr" where
  "replace a b s = map (\<lambda>c. if c = a then b else c) s"

text \<open>\<open>s.split(c)\<close> for a single separator character: never empty, keeps empty pieces.\<close>

function split_on :: "nat \<Rightarrow> pystr \<Rightarrow> pystr list" where
  "split_on c s =
     takeWhile (\<lambda>x. x \<noteq> c) s #
       (case dropWhile (\<lambda>x. x \<noteq> c) s of [] \<Rightarrow> [] | _ # r \<Rightarrow> split_on c r)"
  by pat_completeness auto
termination
proof (relation "measure (\<lambda>(c, s). length s)", goal_cases)
  case 1
  show ?case by simp
next
  case (2 c s y r)
  have "length (dropWhile (\<lambda>x. x \<noteq> c) s) \<le> length s"
    by (rule length_dropWhile_le)
  with 2 show ?case by simp
qed

declare split_on.simps [simp del]

text \<open>\<open>sep.join(parts)\<close>, for \<open>str\<close> and for \<open>bytes\<close>.\<close>

fun join :: "'a list \<Rightarrow> 'a list list \<Rightarrow> 'a list" where
  "join sep [] = []"
| "join sep [p] = p"
| "join sep (p # q # ps) = p @ sep @ join sep (q # ps)"

text \<open>
  \<open>s.split()\<close>: skip whitespace, take the maximal run of non-whitespace, repeat.
  No piece is empty.
\<close>

function split_ws :: "pystr \<Rightarrow> pystr list" where
  "split_ws s =
     (let r = dropWhile isspace s
      in if r = [] then []
         else takeWhile (\<lambda>c. \<not> isspace c) r # split_ws (dropWhile (\<lambda>c. \<not> isspace c) r))"
  by pat_completeness auto
termination
proof (relation "measure length", goal_cases)
  case 1
  show ?case by simp
next
  case (2 s r)
  then have "r \<noteq> []" and "\<not> isspace (hd r)"
    using hd_dropWhile [of isspace s] by auto
  then have "length (dropWhile (\<lambda>c. \<not> isspace c) r) < length r"
    by (cases r) (auto intro: le_imp_less_Suc length_dropWhile_le)
  moreover have "length r \<le> length s"
    using 2 by (simp add: length_dropWhile_le)
  ultimately show ?case by simp
qed

declare split_ws.simps [simp del]

text \<open>\<open>s.strip()\<close>: whitespace removed at both ends.\<close>

definition strip :: "pystr \<Rightarrow> pystr" where
  "strip s = rev (dropWhile isspace (rev (dropWhile isspace s)))"

definition startswith :: "pystr \<Rightarrow> pystr \<Rightarrow> bool" where
  "startswith s p = (take (length p) s = p)"

definition endswith :: "pystr \<Rightarrow> pystr \<Rightarrow> bool" where
  "endswith s p = (length p \<le> length s \<and> drop (length s - length p) s = p)"

section \<open>Metadata stripping (\<open>OCRProcessor.extract_text_from_image\<close>, lines 143 to 148)\<close>

definition strip_metadata :: "pystr \<Rightarrow> pystr" where
  "strip_metadata content =
     (let lines = split_on 10 content
      in if length lines > 2 then join [10] (drop 2 lines) else content)"

section \<open>The cleaning transform (\<open>TextProcessor.clean_text_file\<close>, lines 30 to 34)\<close>

definition clean_text :: "pystr \<Rightarrow> pystr" where
  "clean_text content = join [32] (split_ws (replace 13 32 (replace 10 32 content)))"

text \<open>Two neighbouring space characters somewhere in the string.\<close>

fun double_space :: "pystr \<Rightarrow> bool" where
  "double_space (a # b # r) = ((a = 32 \<and> b = 32) \<or> double_space (b # r))"
| "double_space _ = False"

text \<open>A piece that \<open>str.split()\<close> can return: not empty, no whitespace inside.\<close>

definition is_word :: "pystr \<Rightarrow> bool" where
  "is_word w = (w \<noteq> [] \<and> (\<forall>c\<in>set w. \<not> isspace c))"

section \<open>Decimal rendering and the clock\<close>

text \<open>The digits of a natural number, as an f-string renders a non-negative \<open>int\<close>.\<close>

function str_nat :: "nat \<Rightarrow> pystr" where
  "str_nat n = (if n < 10 then [48 + n] else str_nat (n div 10) @ [48 + n mod 10])"
  by pat_completeness auto
termination
  by (relation "measure id") auto

declare str_nat.simps [simp del]

text \<open>\<open>f'{i}'\<close> for a Python \<open>int\<close>.\<close>

definition str_int :: "int \<Rightarrow> pystr" where
  "str_int i = (if i < 0 then 45 # str_nat (nat (- i)) else str_nat (nat i))"

text \<open>
  \<open>time.time()\<close> returns a float, which is a rational number; \<open>int(x)\<close> truncates
  towards zero.
\<close>

definition py_int :: "rat \<Rightarrow> int" where
  "py_int x = (if 0 \<le> x then \<lfloor>x\<rfloor> else \<lceil>x\<rceil>)"

section \<open>Paths and discovery (\<open>OCRProcessor.get_image_files\<close>)\<close>

text \<open>
  A path below the images directory is the list of its components. Python orders
  \<open>Path\<close> objects by their component lists, component by component and code point by
  code point, which is the lexicographic order on lists.
\<close>

type_synonym path = "pystr list"

definition name :: "path \<Rightarrow> pystr" where
  "name p = (if p = [] then [] else last p)"

text \<open>\<open>s.rfind(c)\<close>: the index of the last occurrence, or \<open>-1\<close>.\<close>

definition rfind :: "nat \<Rightarrow> pystr \<Rightarrow> int" where
  "rfind c s = int (length s) - 1 - int (length (takeWhile (\<lambda>x. x \<noteq> c) (rev s)))"

text \<open>
  \<open>PurePath.stem\<close> and \<open>PurePath.suffix\<close>: the name is cut at its last dot, unless that
  dot is the first or the last character of the name.
\<close>

definition stem :: "path \<Rightarrow> pystr" where
  "stem p =
     (let nm = name p; i = rfind 46 nm
      in if 0 < i \<and> i < int (length nm) - 1 then take (nat i) nm else nm)"

definition suffix :: "path \<Rightarrow> pystr" where
  "suffix p =
     (let nm = name p; i = rfind 46 nm
      in if 0 < i \<and> i < int (length nm) - 1 then drop (nat i) nm else [])"

text \<open>
  What the program takes from the Python runtime and from the remote service, fixed
  during a run: the UTF-8 codec of text-mode files (\<open>None\<close> where Python raises a
  \<open>UnicodeError\<close>), \<open>str.upper\<close>, \<open>time.strftime\<close> of the format used in the combined
  file's header, and the chunks the remote service exports for an uploaded image.
\<close>

record runtime =
  utf8_decode :: "bytes \<Rightarrow> pystr option"
  utf8_encode :: "pystr \<Rightarrow> bytes option"
  str_upper :: "pystr \<Rightarrow> pystr"
  time_strftime :: "rat \<Rightarrow> pystr"
  ocr_export :: "path \<Rightarrow> bytes list"

text \<open>\<open>OCRConfig\<close> as far as the program reads it.\<close>

record config =
  verbose :: bool
  supported_extensions :: "pystr list"
  combine_texts_option :: bool
  combine_raw :: bool
  include_headers :: bool

text \<open>
  \<open>images_dir.rglob('*' + suffix)\<close> over the entries found below the images directory:
  the entries whose name ends with the suffix, compared case-sensitively. The extensions
  are taken to contain no glob metacharacter.
\<close>

definition rglob :: "path list \<Rightarrow> pystr \<Rightarrow> path list" where
  "rglob tree sfx = filter (\<lambda>p. endswith (name p) sfx) tree"

fun collect_images :: "runtime \<Rightarrow> path list \<Rightarrow> pystr list \<Rightarrow> path list" where
  "collect_images rt tree [] = []"
| "collect_images rt tree (ext # exts) =
     rglob tree ext @ rglob tree (str_upper rt ext) @ collect_images rt tree exts"

fun unique_files :: "pystr set \<Rightarrow> path list \<Rightarrow> path list" where
  "unique_files seen_stems [] = []"
| "unique_files seen_stems (file_path # rest) =
     (if stem file_path \<notin> seen_stems
      then file_path # unique_files (insert (stem file_path) seen_stems) rest
      else unique_files seen_stems rest)"

definition get_image_files :: "runtime \<Rightarrow> config \<Rightarrow> path list \<Rightarrow> path list" where
  "get_image_files rt cfg tree =
     (let image_files = collect_images rt tree (supported_extensions cfg)
      in if image_files = [] then [] else unique_files {} (sort image_files))"

text \<open>ASCII case mapping, for extensions and names written in ASCII.\<close>

definition ascii_upper :: "pystr \<Rightarrow> pystr" where
  "ascii_upper s = map (\<lambda>c. if 97 \<le> c \<and> c \<le> 122 then c - 32 else c) s"

definition ascii_lower :: "pystr \<Rightarrow> pystr" where
  "ascii_lower s = map (\<lambda>c. if 65 \<le> c \<and> c \<le> 90 then c + 32 else c) s"

text \<open>
  The allow-list test in the specification's words: the file's extension is one of the
  configured extensions when case is ignored.
\<close>

definition extension_allowed_ignoring_case :: "config \<Rightarrow> path \<Rightarrow> bool" where
  "extension_allowed_ignoring_case cfg p =
     (ascii_lower (suffix p) \<in> set (map ascii_lower (supported_extensions cfg)))"

text \<open>
  The test that discovery applies to an entry: its name ends with a configured extension
  as written, or with that extension in upper case.
\<close>

definition matches_allow_list :: "runtime \<Rightarrow> config \<Rightarrow> path \<Rightarrow> bool" where
  "matches_allow_list rt cfg p =
     (\<exists>e\<in>set (supported_extensions cfg).
        endswith (name p) e \<or> endswith (name p) (str_upper rt e))"

section \<open>The world the program runs in\<close>

text \<open>
  The two output directories hold files by name. Opening a file, calling the remote
  service and authenticating can each fail; \<open>faults\<close> schedules these failures: every
  such operation takes the next entry, and \<open>Some e\<close> makes it raise \<open>e\<close>. An exception
  is an \<open>HttpError\<close> or any other \<open>Exception\<close>, with its message (the messages of
  Python's own exceptions are abbreviated). \<open>clock\<close> gives the successive readings of
  \<open>time.time()\<close>. \<open>calls\<close> records the combination calls of the orchestrator. Console
  and log output is not modelled.
\<close>

datatype exn = HttpError pystr | Exception pystr

datatype dirsel = TextsDir | RawTextsDir

datatype call = HandleTextCombination | CombineTexts pystr | CombineTextsWithHeaders pystr

record world =
  images :: "path list"
  texts :: "(pystr \<times> bytes) list"
  raw_texts :: "(pystr \<times> bytes) list"
  service :: bool
  faults :: "exn option list"
  clock :: "nat \<Rightarrow> rat"
  clock_reads :: nat
  calls :: "call list"

type_synonym fileref = "dirsel \<times> pystr"

definition dir_of :: "dirsel \<Rightarrow> world \<Rightarrow> (pystr \<times> bytes) list" where
  "dir_of d w = (case d of TextsDir \<Rightarrow> texts w | RawTextsDir \<Rightarrow> raw_texts w)"

definition set_dir :: "dirsel \<Rightarrow> (pystr \<times> bytes) list \<Rightarrow> world \<Rightarrow> world" where
  "set_dir d fs w = (case d of TextsDir \<Rightarrow> w\<lparr>texts := fs\<rparr> | RawTextsDir \<Rightarrow> w\<lparr>raw_texts := fs\<rparr>)"

definition file_content :: "fileref \<Rightarrow> world \<Rightarrow> bytes option" where
  "file_content f w = map_of (dir_of (fst f) w) (snd f)"

definition path_exists :: "fileref \<Rightarrow> world \<Rightarrow> bool" where
  "path_exists f w = (file_content f w \<noteq> None)"

definition store :: "fileref \<Rightarrow> bytes \<Rightarrow> world \<Rightarrow> world" where
  "store f b w = set_dir (fst f) (AList.update (snd f) b (dir_of (fst f) w)) w"

definition next_fault :: "world \<Rightarrow> exn option \<times> world" where
  "next_fault w = (case faults w of [] \<Rightarrow> (None, w) | f # fs \<Rightarrow> (f, w\<lparr>faults := fs\<rparr>))"

definition time_time :: "world \<Rightarrow> rat \<times> world" where
  "time_time w = (clock w (clock_reads w), w\<lparr>clock_reads := Suc (clock_reads w)\<rparr>)"

text \<open>\<open>open(f, 'r')\<close> or \<open>open(f, 'rb')\<close>: the bytes the handle will read.\<close>

definition open_read :: "fileref \<Rightarrow> world \<Rightarrow> (exn + bytes) \<times> world" where
  "open_read f w =
     (case next_fault w of
        (Some e, w') \<Rightarrow> (Inl e, w')
      | (None, w') \<Rightarrow>
          (case file_content f w' of
             None \<Rightarrow> (Inl (Exception (str ''[Errno 2] No such file or directory'')), w')
           | Some b \<Rightarrow> (Inr b, w')))"

text \<open>\<open>open(f, 'w')\<close> or \<open>open(f, 'wb')\<close>: creates the file or empties it.\<close>

definition open_write :: "fileref \<Rightarrow> world \<Rightarrow> (exn + unit) \<times> world" where
  "open_write f w =
     (case next_fault w of
        (Some e, w') \<Rightarrow> (Inl e, w')
      | (None, w') \<Rightarrow> (Inr (), store f [] w'))"

text \<open>\<open>with open(f, 'r', encoding='utf-8') as h: h.read()\<close>.\<close>

definition read_text :: "runtime \<Rightarrow> fileref \<Rightarrow> world \<Rightarrow> (exn + pystr) \<times> world" where
  "read_text rt f w =
     (case open_read f w of
        (Inl e, w') \<Rightarrow> (Inl e, w')
      | (Inr b, w') \<Rightarrow>
          (case utf8_decode rt b of
             None \<Rightarrow> (Inl (Exception (str ''UnicodeDecodeError'')), w')
           | Some s \<Rightarrow> (Inr s, w')))"

text \<open>\<open>with open(f, 'w', encoding='utf-8') as h: h.write(s)\<close>.\<close>

definition write_text :: "runtime \<Rightarrow> fileref \<Rightarrow> pystr \<Rightarrow> world \<Rightarrow> (exn + unit) \<times> world" where
  "write_text rt f s w =
     (case open_write f w of
        (Inl e, w') \<Rightarrow> (Inl e, w')
      | (Inr _, w') \<Rightarrow>
          (case utf8_encode rt s of
             None \<Rightarrow> (Inl (Exception (str ''UnicodeEncodeError'')), w')
           | Some b \<Rightarrow> (Inr (), store f b w')))"

section \<open>The text cleaner (\<open>TextProcessor.clean_text_file\<close>)\<close>

text \<open>
  The handler of the outer \<open>except\<close>: both files are opened, the clean one for writing,
  before the raw one is read; an exception here is logged and swallowed.
\<close>

definition copy_raw_content :: "runtime \<Rightarrow> fileref \<Rightarrow> fileref \<Rightarrow> world \<Rightarrow> world" where
  "copy_raw_content rt raw_file clean_file w =
     (case open_read raw_file w of
        (Inl e, w1) \<Rightarrow> w1
      | (Inr b, w1) \<Rightarrow>
          (case open_write clean_file w1 of
             (Inl e, w2) \<Rightarrow> w2
           | (Inr _, w2) \<Rightarrow>
               (case utf8_decode rt b of
                  None \<Rightarrow> w2
                | Some s \<Rightarrow>
                    (case utf8_encode rt s of
                       None \<Rightarrow> w2
                     | Some b' \<Rightarrow> store clean_file b' w2))))"

definition clean_text_file :: "runtime \<Rightarrow> fileref \<Rightarrow> fileref \<Rightarrow> world \<Rightarrow> world" where
  "clean_text_file rt raw_file clean_file w =
     (case read_text rt raw_file w of
        (Inl e, w1) \<Rightarrow> copy_raw_content rt raw_file clean_file w1
      | (Inr content, w1) \<Rightarrow>
          (case write_text rt clean_file (clean_text content) w1 of
             (Inl e, w2) \<Rightarrow> copy_raw_content rt raw_file clean_file w2
           | (Inr _, w2) \<Rightarrow> w2))"

section \<open>The text combiner (\<open>TextProcessor.combine_texts\<close> and \<open>combine_texts_with_headers\<close>)\<close>

definition get_text_directory :: "pystr \<Rightarrow> dirsel option" where
  "get_text_directory output_dir =
     (if output_dir = str ''texts'' then Some TextsDir
      else if output_dir = str ''raw_texts'' then Some RawTextsDir
      else None)"

text \<open>\<open>text_dir.glob('*.txt')\<close>: each name of the directory once, in no particular order.\<close>

definition glob_txt :: "dirsel \<Rightarrow> world \<Rightarrow> pystr list" where
  "glob_txt text_dir w =
     filter (\<lambda>f. endswith f (str ''.txt'')) (remdups (map fst (dir_of text_dir w)))"

definition get_combinable_files :: "dirsel \<Rightarrow> world \<Rightarrow> pystr list" where
  "get_combinable_files text_dir w =
     filter (\<lambda>f. \<not> startswith f (str ''combined_'')) (glob_txt text_dir w)"

definition outfilename_all :: "int \<Rightarrow> pystr" where
  "outfilename_all timestamp = str ''combined_all_'' @ str_int timestamp @ str ''.txt''"

definition outfilename_headers :: "pystr \<Rightarrow> int \<Rightarrow> pystr" where
  "outfilename_headers file_prefix timestamp =
     str ''combined_'' @ file_prefix @ str ''_'' @ str_int timestamp @ str ''.txt''"

definition separator :: bytes where
  "separator = ''\<newline>\<newline>--- Next File ---\<newline>\<newline>''"

text \<open>
  The loop of \<open>combine_texts\<close>, with \<open>i\<close> the index of \<open>enumerate\<close> and \<open>n\<close> the number of
  candidates. \<open>out\<close> is what has been written to the output file. An exception leaves
  the loop with what was written so far.
\<close>

fun copy_files ::
  "dirsel \<Rightarrow> nat \<Rightarrow> nat \<Rightarrow> pystr list \<Rightarrow> bytes \<Rightarrow> world \<Rightarrow> ((exn \<times> bytes) + bytes) \<times> world" where
  "copy_files text_dir i n [] out w = (Inr out, w)"
| "copy_files text_dir i n (txt_file # rest) out w =
     (case open_read (text_dir, txt_file) w of
        (Inl e, w') \<Rightarrow> (Inl (e, out), w')
      | (Inr b, w') \<Rightarrow>
          copy_files text_dir (Suc i) n rest
            (if int i < int n - 1 then out @ b @ separator else out @ b) w')"

definition combine_texts :: "pystr \<Rightarrow> world \<Rightarrow> fileref option \<times> world" where
  "combine_texts output_dir w =
     (case get_text_directory output_dir of
        None \<Rightarrow> (None, w)
      | Some text_dir \<Rightarrow>
          (let txt_files = get_combinable_files text_dir w
           in if txt_files = [] then (None, w)
              else (case time_time w of (t, w1) \<Rightarrow>
                (let output_path = (text_dir, outfilename_all (py_int t))
                 in (case open_write output_path w1 of
                       (Inl e, w2) \<Rightarrow> (None, w2)
                     | (Inr _, w2) \<Rightarrow>
                         (case copy_files text_dir 0 (length txt_files) (sort txt_files) [] w2 of
                            (Inl (e, out), w3) \<Rightarrow> (None, store output_path out w3)
                          | (Inr out, w3) \<Rightarrow> (Some output_path, store output_path out w3)))))))"

text \<open>
  Successive \<open>outfile.write(s)\<close> calls on a text-mode file: each string is encoded as it is
  written; an encoding error leaves what was written before it.
\<close>

fun text_write :: "runtime \<Rightarrow> pystr list \<Rightarrow> bytes \<Rightarrow> (exn \<times> bytes) + bytes" where
  "text_write rt [] out = Inr out"
| "text_write rt (s # ss) out =
     (case utf8_encode rt s of
        None \<Rightarrow> Inl (Exception (str ''UnicodeEncodeError''), out)
      | Some b \<Rightarrow> text_write rt ss (out @ b))"

definition exn_str :: "exn \<Rightarrow> pystr" where
  "exn_str e = (case e of HttpError m \<Rightarrow> m | Exception m \<Rightarrow> m)"

definition write_combined_file_header ::
  "runtime \<Rightarrow> pystr \<Rightarrow> nat \<Rightarrow> bytes \<Rightarrow> world \<Rightarrow> ((exn \<times> bytes) + bytes) \<times> world" where
  "write_combined_file_header rt file_prefix file_count out w =
     (case time_time w of (t, w') \<Rightarrow>
        (text_write rt
           [str ''Combined '' @ str_upper rt file_prefix @ str '' OCR Text Files\<newline>'',
            str ''Generated: '' @ time_strftime rt t @ str ''\<newline>'',
            str ''Total files: '' @ str_nat file_count @ str ''\<newline>'',
            replicate 80 61 @ str ''\<newline>\<newline>''] out, w'))"

definition write_file_separator :: "runtime \<Rightarrow> nat \<Rightarrow> pystr \<Rightarrow> bytes \<Rightarrow> (exn \<times> bytes) + bytes" where
  "write_file_separator rt file_number filename out =
     text_write rt
       [replicate 60 61 @ str ''\<newline>'',
        str ''FILE '' @ str_nat file_number @ str '': '' @ filename @ str ''\<newline>'',
        replicate 60 61 @ str ''\<newline>\<newline>''] out"

definition error_marker :: "exn \<Rightarrow> pystr" where
  "error_marker file_error = str ''[Error reading file: '' @ exn_str file_error @ str '']\<newline>''"

definition write_file_content ::
  "runtime \<Rightarrow> fileref \<Rightarrow> bytes \<Rightarrow> world \<Rightarrow> ((exn \<times> bytes) + bytes) \<times> world" where
  "write_file_content rt txt_file out w =
     (case read_text rt txt_file w of
        (Inl e, w') \<Rightarrow> (text_write rt [error_marker e] out, w')
      | (Inr c, w') \<Rightarrow>
          (let content = strip c
           in (case text_write rt
                   [if content \<noteq> [] then content else str ''[No content or empty file]'',
                    str ''\<newline>''] out of
                 Inl (e, out') \<Rightarrow> (text_write rt [error_marker e] out', w')
               | Inr out' \<Rightarrow> (Inr out', w'))))"

fun headers_loop ::
  "runtime \<Rightarrow> dirsel \<Rightarrow> nat \<Rightarrow> nat \<Rightarrow> pystr list \<Rightarrow> bytes \<Rightarrow> world
     \<Rightarrow> ((exn \<times> bytes) + bytes) \<times> world" where
  "headers_loop rt text_dir i n [] out w = (Inr out, w)"
| "headers_loop rt text_dir i n (txt_file # rest) out w =
     (case write_file_separator rt (i + 1) txt_file out of
        Inl x \<Rightarrow> (Inl x, w)
      | Inr out1 \<Rightarrow>
          (case write_file_content rt (text_dir, txt_file) out1 w of
             (Inl x, w1) \<Rightarrow> (Inl x, w1)
           | (Inr out2, w1) \<Rightarrow>
               (case (if int i < int n - 1
                      then text_write rt [str ''\<newline>'' @ replicate 40 45 @ str ''\<newline>\<newline>''] out2
                      else Inr out2) of
                  Inl x \<Rightarrow> (Inl x, w1)
                | Inr out3 \<Rightarrow> headers_loop rt text_dir (Suc i) n rest out3 w1)))"

definition combine_texts_with_headers :: "runtime \<Rightarrow> pystr \<Rightarrow> world \<Rightarrow> fileref option \<times> world" where
  "combine_texts_with_headers rt output_dir w =
     (case get_text_directory output_dir of
        None \<Rightarrow> (None, w)
      | Some text_dir \<Rightarrow>
          (let file_prefix = (if output_dir = str ''texts'' then str ''cleaned'' else str ''raw'');
               txt_files = get_combinable_files text_dir w
           in if txt_files = [] then (None, w)
              else (case time_time w of (t, w1) \<Rightarrow>
                (let output_path = (text_dir, outfilename_headers file_prefix (py_int t))
                 in (case open_write output_path w1 of
                       (Inl e, w2) \<Rightarrow> (None, w2)
                     | (Inr _, w2) \<Rightarrow>
                         (case write_combined_file_header rt file_prefix (length txt_files) [] w2 of
                            (Inl (e, out), w3) \<Rightarrow> (None, store output_path out w3)
                          | (Inr out, w3) \<Rightarrow>
                              (case headers_loop rt text_dir 0 (length txt_files)
                                      (sort txt_files) out w3 of
                                 (Inl (e, out'), w4) \<Rightarrow> (None, store output_path out' w4)
                               | (Inr out', w4) \<Rightarrow>
                                   (Some output_path, store output_path out' w4))))))))"

section \<open>The orchestrator (\<open>OCRProcessor\<close>)\<close>

definition note_call :: "call \<Rightarrow> world \<Rightarrow> world" where
  "note_call c w = w\<lparr>calls := calls w @ [c]\<rparr>"

definition handle_text_combination :: "runtime \<Rightarrow> config \<Rightarrow> world \<Rightarrow> world" where
  "handle_text_combination rt cfg w =
     (let w0 = note_call HandleTextCombination w;
          w1 = (if combine_texts_option cfg
                then (if include_headers cfg
                      then snd (combine_texts_with_headers rt (str ''texts'')
                                  (note_call (CombineTextsWithHeaders (str ''texts'')) w0))
                      else snd (combine_texts (str ''texts'')
                                  (note_call (CombineTexts (str ''texts'')) w0)))
                else w0)
      in if combine_raw cfg
         then (if include_headers cfg
               then snd (combine_texts_with_headers rt (str ''raw_texts'')
                           (note_call (CombineTextsWithHeaders (str ''raw_texts'')) w1))
               else snd (combine_texts (str ''raw_texts'')
                           (note_call (CombineTexts (str ''raw_texts'')) w1)))
         else w1)"

text \<open>One request to the remote service.\<close>

definition remote_call :: "world \<Rightarrow> (exn + unit) \<times> world" where
  "remote_call w =
     (case next_fault w of (Some e, w') \<Rightarrow> (Inl e, w') | (None, w') \<Rightarrow> (Inr (), w'))"

text \<open>
  The download loop: one \<open>next_chunk()\<close> call for each chunk of the export, appended to
  the buffer.
\<close>

fun download :: "bytes list \<Rightarrow> bytes \<Rightarrow> world \<Rightarrow> (exn + bytes) \<times> world" where
  "download [] temp_buffer w = (Inr temp_buffer, w)"
| "download (chunk # chunks) temp_buffer w =
     (case remote_call w of
        (Inl e, w') \<Rightarrow> (Inl e, w')
      | (Inr _, w') \<Rightarrow> download chunks (temp_buffer @ chunk) w')"

text \<open>The two \<open>except\<close> handlers of \<open>extract_text_from_image\<close>.\<close>

definition failure :: "path \<Rightarrow> exn \<Rightarrow> bool \<times> pystr option" where
  "failure image_path e =
     (case e of
        HttpError m \<Rightarrow>
          (False, Some (str ''Google API error processing '' @ name image_path @ str '': '' @ m))
      | Exception m \<Rightarrow>
          (False, Some (str ''Error processing '' @ name image_path @ str '': '' @ m)))"

definition extract_text_from_image ::
  "runtime \<Rightarrow> path \<Rightarrow> world \<Rightarrow> (bool \<times> pystr option) \<times> world" where
  "extract_text_from_image rt image_path w =
     (let name_without_ext = stem image_path;
          raw_txtfile = (RawTextsDir, name_without_ext @ str ''.txt'');
          txtfile = (TextsDir, name_without_ext @ str ''.txt'')
      in if path_exists txtfile w \<and> path_exists raw_txtfile w then ((True, None), w)
         else
          (case remote_call w of
             (Inl e, w1) \<Rightarrow> (failure image_path e, w1)
           | (Inr _, w1) \<Rightarrow>
           (case download (if ocr_export rt image_path = [] then [[]]
                           else ocr_export rt image_path) [] w1 of
              (Inl e, w2) \<Rightarrow> (failure image_path e, w2)
            | (Inr temp_buffer, w2) \<Rightarrow>
            (case utf8_decode rt temp_buffer of
               None \<Rightarrow> (failure image_path (Exception (str ''UnicodeDecodeError'')), w2)
             | Some content \<Rightarrow>
             (case write_text rt raw_txtfile (strip_metadata content) w2 of
                (Inl e, w3) \<Rightarrow> (failure image_path e, w3)
              | (Inr _, w3) \<Rightarrow>
              (case remote_call w3 of
                 (Inl e, w4) \<Rightarrow> (failure image_path e, w4)
               | (Inr _, w4) \<Rightarrow>
                   ((True, None), clean_text_file rt raw_txtfile txtfile w4)))))))"

record results =
  total :: nat
  successful :: nat
  failed :: nat
  errors :: "pystr list"
  processed_files :: "path list"

text \<open>
  The loop of \<open>process_all_images\<close> over the discovered files, with its four
  accumulators.
\<close>

fun process_loop ::
  "runtime \<Rightarrow> path list \<Rightarrow> nat \<times> nat \<times> pystr list \<times> path list \<Rightarrow> world
     \<Rightarrow> (nat \<times> nat \<times> pystr list \<times> path list) \<times> world" where
  "process_loop rt [] acc w = (acc, w)"
| "process_loop rt (image_path # rest) (successful', failed', errors', processed_files') w =
     (case extract_text_from_image rt image_path w of
        ((success, error_msg), w') \<Rightarrow>
          (if success
           then process_loop rt rest
                  (successful' + 1, failed', errors', processed_files' @ [image_path]) w'
           else process_loop rt rest
                  (successful', failed' + 1,
                   (case error_msg of
                      None \<Rightarrow> errors'
                    | Some m \<Rightarrow> if m \<noteq> [] then errors' @ [m] else errors'),
                   processed_files') w'))"

text \<open>
  \<open>GoogleDriveAuth.initialize_service\<close>: any failure ends the process with exit status 1.
\<close>

definition initialize_service :: "world \<Rightarrow> (nat + unit) \<times> world" where
  "initialize_service w =
     (case next_fault w of
        (Some e, w') \<Rightarrow> (Inl 1, w')
      | (None, w') \<Rightarrow> (Inr (), w'\<lparr>service := True\<rparr>))"

definition process_all_images :: "runtime \<Rightarrow> config \<Rightarrow> world \<Rightarrow> (nat + results) \<times> world" where
  "process_all_images rt cfg w =
     (case (if service w then (Inr (), w) else initialize_service w) of
        (Inl status, w0) \<Rightarrow> (Inl status, w0)
      | (Inr _, w0) \<Rightarrow>
          (let image_files = get_image_files rt cfg (images w0)
           in if image_files = []
              then (Inr \<lparr>total = 0, successful = 0, failed = 0, errors = [],
                          processed_files = []\<rparr>, w0)
              else (case process_loop rt image_files (0, 0, [], []) w0 of
                      ((successful', failed', errors', processed_files'), w1) \<Rightarrow>
                        (Inr \<lparr>total = length image_files, successful = successful',
                               failed = failed', errors = errors',
                               processed_files = processed_files'\<rparr>,
                         if successful' > 0 then handle_text_combination rt cfg w1 else w1))))"

section \<open>Notions used in the statements\<close>

text \<open>
  \<open>touches_only F w w'\<close>: from \<open>w\<close> to \<open>w'\<close> no file outside \<open>F\<close> has changed, no file has
  disappeared, and the recorded calls, the images and the clock are the same.
\<close>

definition touches_only :: "fileref set \<Rightarrow> world \<Rightarrow> world \<Rightarrow> bool" where
  "touches_only F w w' =
     ((\<forall>g. g \<notin> F \<longrightarrow> file_content g w' = file_content g w) \<and>
      (\<forall>g. path_exists g w \<longrightarrow> path_exists g w') \<and>
      calls w' = calls w \<and> images w' = images w \<and> clock w' = clock w)"

text \<open>The raw and the cleaned text artifact of an image.\<close>

definition artifacts :: "path \<Rightarrow> fileref set" where
  "artifacts p = {(RawTextsDir, stem p @ str ''.txt''), (TextsDir, stem p @ str ''.txt'')}"

text \<open>The files whose name begins with the prefix of combined artifacts.\<close>

definition combined_files :: "fileref set" where
  "combined_files = {g. startswith (snd g) (str ''combined_'')}"

text \<open>The number that a string of decimal digits denotes.\<close>

definition digits_value :: "pystr \<Rightarrow> nat" where
  "digits_value ds = foldl (\<lambda>a d. 10 * a + (d - 48)) 0 ds"

section \<open>Properties of the string operations\<close>

lemma split_on_nonempty: "split_on c s \<noteq> []"
  by (subst split_on.simps) simp

lemma split_on_no_sep: "c \<notin> set l \<Longrightarrow> split_on c l = [l]"
proof -
  assume a: "c \<notin> set l"
  then have h: "dropWhile (\<lambda>x. x \<noteq> c) l = []" "takeWhile (\<lambda>x. x \<noteq> c) l = l"
    by (auto simp: takeWhile_eq_all_conv)
  show ?thesis by (subst split_on.simps) (simp add: h)
qed

lemma split_on_prefix: "c \<notin> set l \<Longrightarrow> split_on c (l @ c # r) = l # split_on c r"
proof -
  assume a: "c \<notin> set l"
  then have h: "dropWhile (\<lambda>x. x \<noteq> c) (l @ c # r) = c # r" "takeWhile (\<lambda>x. x \<noteq> c) (l @ c # r) = l"
    by (auto simp: dropWhile_append takeWhile_append)
  show ?thesis by (subst split_on.simps) (simp add: h)
qed

lemma split_on_cases:
  obtains (one) "c \<notin> set s" | (more) l r where "s = l @ c # r" "c \<notin> set l"
proof (cases "c \<in> set s")
  case True
  then obtain l r where "s = l @ c # r" "c \<notin> set l" by (auto dest: split_list_first)
  then show ?thesis by (rule more)
next
  case False then show ?thesis by (rule one)
qed

lemma split_on_pieces: "l \<in> set (split_on c s) \<Longrightarrow> c \<notin> set l"
proof (induction s arbitrary: l rule: length_induct)
  case (1 s)
  show ?case
  proof (cases c s rule: split_on_cases)
    case one
    with 1(2) show ?thesis by (simp add: split_on_no_sep)
  next
    case (more a r)
    then have "length r < length s" by simp
    with 1(1) have "\<And>l. l \<in> set (split_on c r) \<Longrightarrow> c \<notin> set l" by blast
    with 1(2) more show ?thesis by (auto simp: split_on_prefix)
  qed
qed

lemma double_space_iff:
  "double_space s \<longleftrightarrow> (\<exists>i. Suc i < length s \<and> s ! i = 32 \<and> s ! Suc i = 32)"
proof (induction s rule: double_space.induct)
  case (1 a b r)
  show ?case
  proof
    assume "double_space (a # b # r)"
    then consider "a = 32 \<and> b = 32" | "double_space (b # r)" by auto
    then show "\<exists>i. Suc i < length (a # b # r) \<and> (a # b # r) ! i = 32 \<and> (a # b # r) ! Suc i = 32"
    proof cases
      case 1
      then show ?thesis by (intro exI [of _ 0]) simp
    next
      case 2
      with 1 obtain i where "Suc i < length (b # r)" "(b # r) ! i = 32" "(b # r) ! Suc i = 32" by blast
      then show ?thesis by (intro exI [of _ "Suc i"]) simp
    qed
  next
    assume "\<exists>i. Suc i < length (a # b # r) \<and> (a # b # r) ! i = 32 \<and> (a # b # r) ! Suc i = 32"
    then obtain i where i: "Suc i < length (a # b # r)" "(a # b # r) ! i = 32" "(a # b # r) ! Suc i = 32"
      by blast
    show "double_space (a # b # r)"
    proof (cases i)
      case 0
      with i show ?thesis by simp
    next
      case (Suc j)
      with i have "Suc j < length (b # r) \<and> (b # r) ! j = 32 \<and> (b # r) ! Suc j = 32" by simp
      with 1 have "double_space (b # r)" by blast
      then show ?thesis by simp
    qed
  qed
qed simp_all

lemma join_Cons: "ps \<noteq> [] \<Longrightarrow> join sep (p # ps) = p @ sep @ join sep ps"
  by (cases ps) auto

lemma join_split_on: "join [c] (split_on c s) = s"
proof (induction s rule: length_induct)
  case (1 s)
  show ?case
  proof (cases c s rule: split_on_cases)
    case one
    then show ?thesis by (simp add: split_on_no_sep)
  next
    case (more l r)
    then have "length r < length s" by simp
    with 1 have "join [c] (split_on c r) = r" by blast
    then show ?thesis using more by (simp add: split_on_prefix join_Cons split_on_nonempty)
  qed
qed

lemma length_split_on: "length (split_on c s) = Suc (length (filter (\<lambda>x. x = c) s))"
proof (induction s rule: length_induct)
  case (1 s)
  show ?case
  proof (cases c s rule: split_on_cases)
    case one
    then have "filter (\<lambda>x. x = c) s = []" by (auto simp: filter_empty_conv)
    then show ?thesis using one by (simp add: split_on_no_sep)
  next
    case (more l r)
    then have "length r < length s" by simp
    with 1 have "length (split_on c r) = Suc (length (filter (\<lambda>x. x = c) r))" by blast
    moreover have "filter (\<lambda>x. x = c) l = []" using more by (auto simp: filter_empty_conv)
    ultimately show ?thesis using more by (simp add: split_on_prefix)
  qed
qed

lemma strip_metadata_two_lines:
  assumes "10 \<notin> set l1" "10 \<notin> set l2"
  shows "strip_metadata (l1 @ 10 # l2 @ 10 # r) = r"
proof -
  have "split_on 10 (l1 @ 10 # l2 @ 10 # r) = l1 # l2 # split_on 10 r"
    using assms by (simp add: split_on_prefix)
  then show ?thesis
    by (simp add: strip_metadata_def Let_def join_split_on split_on_nonempty)
qed

lemma split_ws_none: "dropWhile isspace s = [] \<Longrightarrow> split_ws s = []"
  by (subst split_ws.simps) (simp add: Let_def)

lemma split_ws_some:
  "dropWhile isspace s \<noteq> [] \<Longrightarrow>
   split_ws s = takeWhile (\<lambda>c. \<not> isspace c) (dropWhile isspace s)
                  # split_ws (dropWhile (\<lambda>c. \<not> isspace c) (dropWhile isspace s))"
  by (subst split_ws.simps) (simp only: Let_def if_False)

lemma dropWhile_id: "xs = [] \<or> \<not> P (hd xs) \<Longrightarrow> dropWhile P xs = xs"
  by (cases xs) auto

lemma split_ws_words: "w \<in> set (split_ws s) \<Longrightarrow> is_word w"
proof (induction s arbitrary: w rule: split_ws.induct)
  case (1 s)
  define r where "r = dropWhile isspace s"
  show ?case
  proof (cases "r = []")
    case True
    with 1(2) show ?thesis by (simp add: split_ws_none r_def del: dropWhile_eq_Nil_conv)
  next
    case False
    then have hd: "\<not> isspace (hd r)" unfolding r_def using hd_dropWhile by blast
    have "split_ws s = takeWhile (\<lambda>c. \<not> isspace c) r # split_ws (dropWhile (\<lambda>c. \<not> isspace c) r)"
      using False unfolding r_def by (rule split_ws_some)
    with 1(2) have "w = takeWhile (\<lambda>c. \<not> isspace c) r \<or> w \<in> set (split_ws (dropWhile (\<lambda>c. \<not> isspace c) r))"
      by simp
    then show ?thesis
    proof
      assume w: "w = takeWhile (\<lambda>c. \<not> isspace c) r"
      from False hd have "w \<noteq> []" unfolding w by (cases r) auto
      moreover have "\<forall>c\<in>set w. \<not> isspace c" unfolding w by (auto dest: set_takeWhileD)
      ultimately show ?thesis by (simp add: is_word_def)
    next
      assume "w \<in> set (split_ws (dropWhile (\<lambda>c. \<not> isspace c) r))"
      then show ?thesis using 1(1) [OF r_def False] by simp
    qed
  qed
qed

lemma split_ws_Nil: "split_ws [] = []"
  by (rule split_ws_none) simp

lemma split_ws_dropWhile: "split_ws (dropWhile isspace s) = split_ws s"
proof (cases "dropWhile isspace s = []")
  case True
  then have "dropWhile isspace (dropWhile isspace s) = []" by simp
  then have "split_ws (dropWhile isspace s) = []" by (rule split_ws_none)
  moreover have "split_ws s = []" using True by (rule split_ws_none)
  ultimately show ?thesis by simp
next
  case False
  have i: "dropWhile isspace (dropWhile isspace s) = dropWhile isspace s"
    using hd_dropWhile [of isspace s] False by (intro dropWhile_id) blast
  then have ne: "dropWhile isspace (dropWhile isspace s) \<noteq> []" using False by simp
  have "split_ws (dropWhile isspace s) =
      takeWhile (\<lambda>c. \<not> isspace c) (dropWhile isspace s)
        # split_ws (dropWhile (\<lambda>c. \<not> isspace c) (dropWhile isspace s))"
    using split_ws_some [OF ne] by (simp only: i)
  also have "\<dots> = split_ws s" by (rule split_ws_some [OF False, symmetric])
  finally show ?thesis .
qed

lemma split_ws_space: "isspace c \<Longrightarrow> split_ws (c # s) = split_ws s"
  using split_ws_dropWhile [of "c # s"] split_ws_dropWhile [of s] by simp

lemma split_ws_word:
  assumes "is_word w" "r = [] \<or> isspace (hd r)"
  shows "split_ws (w @ r) = w # split_ws r"
proof -
  from assms(1) obtain a v where w: "w = a # v" and a: "\<not> isspace a"
    by (cases w) (auto simp: is_word_def)
  have d: "dropWhile isspace (w @ r) = w @ r" using w a by simp
  have ns: "\<forall>c\<in>set w. \<not> isspace c" using assms(1) by (simp add: is_word_def)
  have t: "takeWhile (\<lambda>c. \<not> isspace c) (w @ r) = w"
    using ns assms(2) by (cases r) (auto simp: takeWhile_append)
  have e: "dropWhile (\<lambda>c. \<not> isspace c) (w @ r) = r"
    using ns assms(2) by (cases r) (auto simp: dropWhile_append)
  have ne: "dropWhile isspace (w @ r) \<noteq> []" unfolding d using w by simp
  show ?thesis using split_ws_some [OF ne] by (simp only: d t e)
qed

lemma split_ws_join:
  assumes "\<forall>w\<in>set ws. is_word w"
  shows "split_ws (join [32] ws) = ws"
  using assms
proof (induction "[32::nat]" ws rule: join.induct)
  case 1
  show ?case by (simp add: split_ws_Nil)
next
  case (2 p)
  then show ?case using split_ws_word [of p "[]"] by (simp add: split_ws_Nil)
next
  case (3 p q ps)
  have "split_ws (p @ 32 # join [32] (q # ps)) = p # split_ws (32 # join [32] (q # ps))"
    using 3(2) by (intro split_ws_word) (auto simp: isspace_def)
  also have "\<dots> = p # split_ws (join [32] (q # ps))"
    by (simp add: split_ws_space isspace_def)
  finally show ?case using 3 by simp
qed

lemma set_join: "set (join sep ws) \<subseteq> set sep \<union> (\<Union>w\<in>set ws. set w)"
  by (induction sep ws rule: join.induct) auto

lemma join_words_nospace_char:
  assumes "\<forall>w\<in>set ws. is_word w" "isspace c" "c \<noteq> 32"
  shows "c \<notin> set (join [32] ws)"
  using set_join [of "[32]" ws] assms by (auto simp: is_word_def)

lemma join_words_hd:
  assumes "\<forall>w\<in>set ws. is_word w" "ws \<noteq> []"
  shows "join [32] ws \<noteq> [] \<and> \<not> isspace (hd (join [32] ws))"
  using assms by (induction "[32::nat]" ws rule: join.induct) (auto simp: is_word_def)

lemma join_words_last:
  assumes "\<forall>w\<in>set ws. is_word w" "ws \<noteq> []"
  shows "\<not> isspace (last (join [32] ws))"
  using assms
proof (induction "[32::nat]" ws rule: join.induct)
  case (3 p q ps)
  then show ?case using join_words_hd [of "q # ps"] by simp
qed (auto simp: is_word_def)

lemma double_space_Cons:
  "double_space (a # s) = ((a = 32 \<and> s \<noteq> [] \<and> hd s = 32) \<or> double_space s)"
  by (cases s) auto

lemma double_space_append_word:
  assumes "\<forall>c\<in>set w. c \<noteq> 32"
  shows "double_space (w @ 32 # s) = ((s \<noteq> [] \<and> hd s = 32) \<or> double_space s)"
  using assms
proof (induction w)
  case Nil
  show ?case by (simp add: double_space_Cons)
next
  case (Cons a w)
  then show ?case by (cases w) (auto simp: double_space_Cons)
qed

lemma double_space_word: "\<forall>c\<in>set w. c \<noteq> 32 \<Longrightarrow> \<not> double_space w"
  by (induction w) (auto simp: double_space_Cons)

lemma isspace_simps: "isspace 32" "isspace 10" "isspace 13"
  by (simp_all add: isspace_def)

lemma is_word_no_space: "is_word w \<Longrightarrow> c \<in> set w \<Longrightarrow> c \<noteq> 32"
  using isspace_simps(1) by (auto simp: is_word_def)

lemma join_words_no_double_space:
  assumes "\<forall>w\<in>set ws. is_word w"
  shows "\<not> double_space (join [32] ws)"
  using assms
proof (induction "[32::nat]" ws rule: join.induct)
  case 1 show ?case by simp
next
  case (2 p)
  then show ?case by (intro double_space_word) (auto dest: is_word_no_space)
next
  case (3 p q ps)
  have p: "\<forall>c\<in>set p. c \<noteq> 32" using 3(2) by (auto dest: is_word_no_space)
  have "\<not> isspace (hd (join [32] (q # ps)))" using join_words_hd [of "q # ps"] 3(2) by simp
  then have "hd (join [32] (q # ps)) \<noteq> 32" using isspace_simps(1) by metis
  then show ?case using 3 p by (simp add: double_space_append_word)
qed

lemma strip_id: "s = [] \<or> (\<not> isspace (hd s) \<and> \<not> isspace (last s)) \<Longrightarrow> strip s = s"
proof (cases "s = []")
  case True then show ?thesis by (simp add: strip_def)
next
  case False
  assume "s = [] \<or> (\<not> isspace (hd s) \<and> \<not> isspace (last s))"
  with False have a: "\<not> isspace (hd s)" and l: "\<not> isspace (last s)" by auto
  have "dropWhile isspace s = s" using a by (intro dropWhile_id) simp
  moreover have "dropWhile isspace (rev s) = rev s"
    using l False by (intro dropWhile_id) (simp add: hd_rev)
  ultimately show ?thesis by (simp add: strip_def)
qed

lemma replace_id: "a \<notin> set s \<Longrightarrow> replace a b s = s"
  by (induction s) (auto simp: replace_def)

section \<open>Claims about the pure transforms\<close>

text \<open>
  C3. Metadata stripping: when splitting the decoded export on the newline character gives
  two lines or fewer, the text is returned as it is; when it gives more than two, the
  result is the lines after the first two, joined with the newline character. The lines
  are the pieces of the text between its newline characters: none contains a newline, and
  joining them with newlines gives the text back.
\<close>

theorem strip_metadata_spec:
  "(length (split_on 10 content) \<le> 2 \<longrightarrow> strip_metadata content = content) \<and>
   (2 < length (split_on 10 content) \<longrightarrow>
      strip_metadata content = join [10] (drop 2 (split_on 10 content))) \<and>
   join [10] (split_on 10 content) = content \<and>
   (\<forall>l\<in>set (split_on 10 content). 10 \<notin> set l)"
  by (auto simp: strip_metadata_def Let_def join_split_on dest: split_on_pieces)

theorem strip_metadata_spec_witness:
  "length (split_on 10 (str ''a\<newline>b'')) \<le> 2 \<and>
   strip_metadata (str ''a\<newline>b'') = str ''a\<newline>b'' \<and>
   2 < length (split_on 10 (str ''meta1\<newline>meta2\<newline>Hello world\<newline>'')) \<and>
   strip_metadata (str ''meta1\<newline>meta2\<newline>Hello world\<newline>'') = str ''Hello world\<newline>''"
  using strip_metadata_spec [of "str ''a\<newline>b''"]
    strip_metadata_spec [of "str ''meta1\<newline>meta2\<newline>Hello world\<newline>''"]
  by (simp add: str_def split_on.simps)

text \<open>
  C4. The cleaning transform is idempotent, and its output contains no line feed, no
  carriage return and no two neighbouring spaces, and has no whitespace at either end
  (stripping it changes nothing).
\<close>

theorem clean_text_idempotent_normalised:
  "clean_text (clean_text s) = clean_text s \<and>
   10 \<notin> set (clean_text s) \<and> 13 \<notin> set (clean_text s) \<and>
   \<not> double_space (clean_text s) \<and>
   strip (clean_text s) = clean_text s"
proof -
  define ws where "ws = split_ws (replace 13 32 (replace 10 32 s))"
  have w: "\<forall>w\<in>set ws. is_word w" unfolding ws_def by (auto intro: split_ws_words)
  have c: "clean_text s = join [32] ws" by (simp add: clean_text_def ws_def)
  have n10: "10 \<notin> set (clean_text s)" unfolding c using w isspace_simps(2)
    by (rule join_words_nospace_char) simp
  have n13: "13 \<notin> set (clean_text s)" unfolding c using w isspace_simps(3)
    by (rule join_words_nospace_char) simp
  have ds: "\<not> double_space (clean_text s)"
    unfolding c using w by (rule join_words_no_double_space)
  have st: "strip (clean_text s) = clean_text s"
  proof (cases "ws = []")
    case True then show ?thesis unfolding c by (simp add: strip_def)
  next
    case False
    then show ?thesis unfolding c
      using join_words_hd [OF w] join_words_last [OF w] by (intro strip_id) simp
  qed
  have "clean_text (join [32] ws) = join [32] (split_ws (join [32] ws))"
    using n10 n13 unfolding c by (simp add: clean_text_def replace_id)
  then have "clean_text (clean_text s) = clean_text s"
    unfolding c using w by (simp add: split_ws_join)
  with n10 n13 ds st show ?thesis by simp
qed

theorem clean_text_idempotent_normalised_witness:
  "clean_text (str ''  Hello\<newline>world  foo '') = str ''Hello world foo'' \<and>
   clean_text (str ''Hello world foo'') = str ''Hello world foo'' \<and>
   \<not> double_space (str ''Hello world foo'')"
proof -
  have e: "clean_text (str ''  Hello\<newline>world  foo '') = str ''Hello world foo''"
    by (simp add: clean_text_def str_def replace_def split_ws.simps isspace_def Let_def)
  show ?thesis
    using clean_text_idempotent_normalised [of "str ''  Hello\<newline>world  foo ''"]
    by (simp only: e simp_thms)
qed

section \<open>Properties of discovery\<close>

lemma set_collect_images:
  "set (collect_images rt tree exts) =
     {p \<in> set tree. \<exists>e\<in>set exts. endswith (name p) e \<or> endswith (name p) (str_upper rt e)}"
  by (induction exts) (auto simp: rglob_def)

lemma unique_files_iff:
  "sorted xs \<Longrightarrow>
   x \<in> set (unique_files seen xs) \<longleftrightarrow>
     x \<in> set xs \<and> stem x \<notin> seen \<and> (\<forall>y\<in>set xs. stem y = stem x \<longrightarrow> x \<le> y)"
proof (induction xs arbitrary: seen)
  case Nil
  show ?case by simp
next
  case (Cons p ps)
  then have le: "\<forall>y\<in>set ps. p \<le> y" and s: "sorted ps" by auto
  note IH = Cons.IH [OF s]
  show ?case
  proof (cases "stem p \<in> seen")
    case True
    then show ?thesis using IH [of seen] by auto
  next
    case False
    show ?thesis
    proof (cases "x = p")
      case True
      then show ?thesis using False le by auto
    next
      case ne: False
      have "x \<in> set (unique_files seen (p # ps)) \<longleftrightarrow> x \<in> set (unique_files (insert (stem p) seen) ps)"
        using False ne by simp
      also have "\<dots> \<longleftrightarrow> x \<in> set ps \<and> stem x \<notin> insert (stem p) seen \<and> (\<forall>y\<in>set ps. stem y = stem x \<longrightarrow> x \<le> y)"
        by (rule IH)
      also have "\<dots> \<longleftrightarrow> x \<in> set (p # ps) \<and> stem x \<notin> seen \<and> (\<forall>y\<in>set (p # ps). stem y = stem x \<longrightarrow> x \<le> y)"
        using ne le by (auto dest: antisym)
      finally show ?thesis .
    qed
  qed
qed

lemma unique_files_distinct_stems:
  "distinct (map stem (unique_files seen xs)) \<and> (\<forall>x\<in>set (unique_files seen xs). stem x \<notin> seen)"
proof (induction xs arbitrary: seen)
  case Nil show ?case by simp
next
  case (Cons p ps)
  show ?case using Cons [of seen] Cons [of "insert (stem p) seen"] by auto
qed

lemma unique_files_sorted: "sorted xs \<Longrightarrow> sorted (unique_files seen xs)"
proof (induction xs arbitrary: seen)
  case Nil show ?case by simp
next
  case (Cons p ps)
  then have le: "\<forall>y\<in>set ps. p \<le> y" and s: "sorted ps" by auto
  have sub: "\<And>sn. set (unique_files sn ps) \<subseteq> set ps"
    using unique_files_iff [OF s] by blast
  show ?case using Cons.IH [OF s] le sub by auto
qed

section \<open>Properties of the output file names\<close>

lemma digits_value_str_nat: "digits_value (str_nat n) = n"
proof (induction n rule: str_nat.induct)
  case (1 n)
  show ?case
  proof (cases "n < 10")
    case True
    then show ?thesis by (subst str_nat.simps) (simp add: digits_value_def)
  next
    case False
    then have "digits_value (str_nat n) = 10 * digits_value (str_nat (n div 10)) + n mod 10"
      by (subst str_nat.simps) (simp add: digits_value_def)
    then show ?thesis using 1 [OF False] by simp
  qed
qed

lemma str_nat_inj: "str_nat m = str_nat n \<longleftrightarrow> m = n"
  by (metis digits_value_str_nat)

lemma str_nat_digits: "c \<in> set (str_nat n) \<Longrightarrow> 48 \<le> c \<and> c \<le> 57"
proof (induction n arbitrary: c rule: str_nat.induct)
  case (1 n)
  show ?case
  proof (cases "n < 10")
    case True
    with 1(2) show ?thesis by (subst (asm) str_nat.simps) simp
  next
    case False
    with 1(2) have "c \<in> set (str_nat (n div 10)) \<or> c = 48 + n mod 10"
      by (subst (asm) str_nat.simps) auto
    then show ?thesis using 1(1) [OF False] by (auto simp: le_diff_conv)
  qed
qed

lemma str_nat_nonempty: "str_nat n \<noteq> []"
  by (subst str_nat.simps) simp

lemma str_int_inj: "str_int i = str_int j \<longleftrightarrow> i = j"
proof
  assume e: "str_int i = str_int j"
  have hd: "hd (str_nat n) \<noteq> 45" for n
  proof -
    have "hd (str_nat n) \<in> set (str_nat n)" using str_nat_nonempty by simp
    then have "48 \<le> hd (str_nat n)" using str_nat_digits by blast
    then show ?thesis by simp
  qed
  show "i = j"
  proof (cases "i < 0"; cases "j < 0")
    assume "i < 0" "j < 0"
    with e show ?thesis by (simp add: str_int_def str_nat_inj)
  next
    assume "i < 0" "\<not> j < 0"
    with e hd [of "nat j"] show ?thesis by (auto simp: str_int_def dest: arg_cong [where f = hd])
  next
    assume "\<not> i < 0" "j < 0"
    with e hd [of "nat i"] show ?thesis by (auto simp: str_int_def dest: arg_cong [where f = hd])
  next
    assume "\<not> i < 0" "\<not> j < 0"
    with e show ?thesis by (simp add: str_int_def str_nat_inj)
  qed
qed simp

lemma outfilename_all_inj: "outfilename_all s = outfilename_all t \<longleftrightarrow> s = t"
  by (simp add: outfilename_all_def str_int_inj)

lemma outfilename_headers_inj: "outfilename_headers p s = outfilename_headers p t \<longleftrightarrow> s = t"
  by (simp add: outfilename_headers_def str_int_inj)

lemma outfilename_modes_differ:
  "outfilename_all s \<noteq> outfilename_headers (str ''cleaned'') t"
  "outfilename_all s \<noteq> outfilename_headers (str ''raw'') t"
  by (simp_all add: outfilename_all_def outfilename_headers_def str_def)

section \<open>What each operation can change\<close>

lemma dir_of_set_dir: "dir_of d (set_dir d' fs w) = (if d = d' then fs else dir_of d w)"
  by (cases d; cases d') (simp_all add: dir_of_def set_dir_def)

lemma file_content_store:
  "file_content g (store f b w) = (if g = f then Some b else file_content g w)"
proof (cases "fst g = fst f")
  case True
  then show ?thesis
    by (cases f; cases g) (simp add: file_content_def store_def dir_of_set_dir update_conv')
next
  case False
  then show ?thesis
    by (cases f; cases g) (auto simp: file_content_def store_def dir_of_set_dir)
qed

lemma set_dir_fields [simp]:
  "faults (set_dir d fs w) = faults w" "clock (set_dir d fs w) = clock w"
  "clock_reads (set_dir d fs w) = clock_reads w" "calls (set_dir d fs w) = calls w"
  "images (set_dir d fs w) = images w" "service (set_dir d fs w) = service w"
  by (cases d; simp add: set_dir_def)+

lemma store_fields [simp]:
  "faults (store f b w) = faults w" "clock (store f b w) = clock w"
  "clock_reads (store f b w) = clock_reads w" "calls (store f b w) = calls w"
  "images (store f b w) = images w" "service (store f b w) = service w"
  by (simp_all add: store_def)

lemma touches_only_refl [simp]: "touches_only F w w"
  by (simp add: touches_only_def)

lemma touches_only_trans:
  "touches_only F w w' \<Longrightarrow> touches_only G w' w'' \<Longrightarrow> F \<union> G \<subseteq> H \<Longrightarrow> touches_only H w w''"
  unfolding touches_only_def by (auto simp: subset_iff) metis+

lemma touches_only_mono: "touches_only F w w' \<Longrightarrow> F \<subseteq> G \<Longrightarrow> touches_only G w w'"
  unfolding touches_only_def by auto

lemma faults_update_untouched [simp]: "touches_only F w (w\<lparr>faults := fs\<rparr>)"
  by (simp add: touches_only_def file_content_def path_exists_def dir_of_def split: dirsel.splits)

lemma clock_reads_update_untouched [simp]: "touches_only F w (w\<lparr>clock_reads := n\<rparr>)"
  by (simp add: touches_only_def file_content_def path_exists_def dir_of_def split: dirsel.splits)

lemma service_update_untouched [simp]: "touches_only F w (w\<lparr>service := b\<rparr>)"
  by (simp add: touches_only_def file_content_def path_exists_def dir_of_def split: dirsel.splits)

lemma store_touches: "touches_only {f} w (store f b w)"
  by (simp add: touches_only_def file_content_store path_exists_def)

lemma next_fault_touches: "next_fault w = (r, w') \<Longrightarrow> touches_only {} w w'"
  by (auto simp: next_fault_def split: list.splits)

lemma time_time_touches: "time_time w = (t, w') \<Longrightarrow> touches_only {} w w'"
  by (auto simp: time_time_def)

lemma open_read_touches: "open_read f w = (r, w') \<Longrightarrow> touches_only {} w w'"
  by (auto simp: open_read_def split: prod.splits option.splits dest: next_fault_touches)

lemma open_write_touches: "open_write f w = (r, w') \<Longrightarrow> touches_only {f} w w'"
  by (auto simp: open_write_def split: prod.splits option.splits
      dest!: next_fault_touches intro: touches_only_trans [OF _ store_touches] touches_only_mono)

lemma read_text_touches: "read_text rt f w = (r, w') \<Longrightarrow> touches_only {} w w'"
  by (auto simp: read_text_def split: prod.splits option.splits sum.splits dest: open_read_touches)

lemma write_text_touches: "write_text rt f s w = (r, w') \<Longrightarrow> touches_only {f} w w'"
  by (auto simp: write_text_def split: prod.splits option.splits sum.splits
      dest!: open_write_touches intro: touches_only_trans [OF _ store_touches])

lemma copy_raw_content_touches:
  "touches_only {clean_file} w (copy_raw_content rt raw_file clean_file w)"
proof -
  obtain r1 w1 where 1: "open_read raw_file w = (r1, w1)" by (cases "open_read raw_file w")
  note t1 = open_read_touches [OF 1]
  show ?thesis
  proof (cases r1)
    case (Inl e)
    then show ?thesis using 1 t1 by (auto simp: copy_raw_content_def intro: touches_only_mono)
  next
    case (Inr b)
    obtain r2 w2 where 2: "open_write clean_file w1 = (r2, w2)" by (cases "open_write clean_file w1")
    have t2: "touches_only {clean_file} w w2"
      using touches_only_trans [OF t1 open_write_touches [OF 2]] by simp
    have t3: "touches_only {clean_file} w (store clean_file b' w2)" for b'
      using touches_only_trans [OF t2 store_touches] by simp
    show ?thesis using 1 2 Inr t2 t3
      by (auto simp: copy_raw_content_def split: sum.splits option.splits)
  qed
qed

lemma clean_text_file_touches:
  "touches_only {clean_file} w (clean_text_file rt raw_file clean_file w)"
proof -
  obtain r1 w1 where 1: "read_text rt raw_file w = (r1, w1)" by (cases "read_text rt raw_file w")
  note t1 = read_text_touches [OF 1]
  have c1: "touches_only {clean_file} w (copy_raw_content rt raw_file clean_file w1)"
    using touches_only_trans [OF t1 copy_raw_content_touches] by simp
  show ?thesis
  proof (cases r1)
    case (Inl e)
    then show ?thesis using 1 c1 by (simp add: clean_text_file_def)
  next
    case (Inr content)
    obtain r2 w2 where 2: "write_text rt clean_file (clean_text content) w1 = (r2, w2)"
      by (cases "write_text rt clean_file (clean_text content) w1")
    have t2: "touches_only {clean_file} w w2"
      using touches_only_trans [OF t1 write_text_touches [OF 2]] by simp
    have c2: "touches_only {clean_file} w (copy_raw_content rt raw_file clean_file w2)"
      using touches_only_trans [OF t2 copy_raw_content_touches] by simp
    show ?thesis using 1 2 Inr t2 c2 by (auto simp: clean_text_file_def split: sum.splits)
  qed
qed

lemma remote_call_touches: "remote_call w = (r, w') \<Longrightarrow> touches_only {} w w'"
  by (auto simp: remote_call_def split: prod.splits option.splits dest: next_fault_touches)

lemma download_touches: "download cs buf w = (r, w') \<Longrightarrow> touches_only {} w w'"
proof (induction cs arbitrary: buf w)
  case Nil
  then show ?case by simp
next
  case (Cons c cs)
  obtain r1 w1 where 1: "remote_call w = (r1, w1)" by (cases "remote_call w")
  note t1 = remote_call_touches [OF 1]
  show ?case
  proof (cases r1)
    case (Inl e)
    with Cons.prems 1 t1 show ?thesis by simp
  next
    case (Inr u)
    with Cons.prems 1 have "download cs (buf @ c) w1 = (r, w')" by simp
    from touches_only_trans [OF t1 Cons.IH [OF this]] show ?thesis by simp
  qed
qed

lemma extract_skip:
  "path_exists (TextsDir, stem p @ str ''.txt'') w \<Longrightarrow>
   path_exists (RawTextsDir, stem p @ str ''.txt'') w \<Longrightarrow>
   extract_text_from_image rt p w = ((True, None), w)"
  by (simp add: extract_text_from_image_def Let_def)

lemma extract_touches:
  assumes "extract_text_from_image rt p w = (r, w')"
  shows "touches_only (artifacts p) w w'"
proof (cases "path_exists (TextsDir, stem p @ str ''.txt'') w \<and>
              path_exists (RawTextsDir, stem p @ str ''.txt'') w")
  case True
  with assms show ?thesis by (simp add: extract_skip)
next
  case False
  define raw where "raw = (RawTextsDir, stem p @ str ''.txt'')"
  define cln where "cln = (TextsDir, stem p @ str ''.txt'')"
  have A: "artifacts p = {raw, cln}" by (simp add: artifacts_def raw_def cln_def)
  obtain r1 w1 where 1: "remote_call w = (r1, w1)" by (cases "remote_call w")
  note t1 = remote_call_touches [OF 1]
  define cs where "cs = (if ocr_export rt p = [] then [[]] else ocr_export rt p)"
  obtain r2 w2 where 2: "download cs [] w1 = (r2, w2)" by (cases "download cs [] w1")
  have t2: "touches_only {} w w2" using touches_only_trans [OF t1 download_touches [OF 2]] by simp
  from assms False have e:
    "(r, w') = (case r1 of Inl e \<Rightarrow> (failure p e, w1) | Inr u \<Rightarrow>
       (case r2 of Inl e \<Rightarrow> (failure p e, w2) | Inr temp_buffer \<Rightarrow>
         (case utf8_decode rt temp_buffer of
            None \<Rightarrow> (failure p (Exception (str ''UnicodeDecodeError'')), w2)
          | Some content \<Rightarrow>
             (case write_text rt raw (strip_metadata content) w2 of
                (Inl e, w3) \<Rightarrow> (failure p e, w3)
              | (Inr u, w3) \<Rightarrow>
                (case remote_call w3 of
                   (Inl e, w4) \<Rightarrow> (failure p e, w4)
                 | (Inr u, w4) \<Rightarrow> ((True, None), clean_text_file rt raw cln w4))))))"
    using 1 2 unfolding extract_text_from_image_def Let_def raw_def cln_def cs_def
    by (auto split: sum.splits)
  show ?thesis
  proof (cases r1)
    case (Inl x)
    with e t1 show ?thesis by (auto intro: touches_only_mono)
  next
    case r1: (Inr u1)
    show ?thesis
    proof (cases r2)
      case (Inl x)
      with e r1 t2 show ?thesis by (auto intro: touches_only_mono)
    next
      case r2: (Inr buf)
      show ?thesis
      proof (cases "utf8_decode rt buf")
        case None
        with e r1 r2 t2 show ?thesis by (auto intro: touches_only_mono)
      next
        case (Some content)
        obtain r3 w3 where 3: "write_text rt raw (strip_metadata content) w2 = (r3, w3)"
          by (cases "write_text rt raw (strip_metadata content) w2")
        have t3: "touches_only {raw, cln} w w3"
          using touches_only_trans [OF t2 write_text_touches [OF 3]] by simp
        obtain r4 w4 where 4: "remote_call w3 = (r4, w4)" by (cases "remote_call w3")
        have t4: "touches_only {raw, cln} w w4"
          using touches_only_trans [OF t3 remote_call_touches [OF 4]] by simp
        have t5: "touches_only {raw, cln} w (clean_text_file rt raw cln w4)"
          using touches_only_trans [OF t4 clean_text_file_touches] by simp
        from e r1 r2 Some 3 4 t3 t4 t5 show ?thesis
          unfolding A by (auto split: sum.splits)
      qed
    qed
  qed
qed

lemma copy_files_touches: "copy_files d i n fs out w = (r, w') \<Longrightarrow> touches_only {} w w'"
proof (induction fs arbitrary: i out w)
  case Nil
  then show ?case by simp
next
  case (Cons f fs)
  obtain r1 w1 where 1: "open_read (d, f) w = (r1, w1)" by (cases "open_read (d, f) w")
  note t1 = open_read_touches [OF 1]
  show ?case
  proof (cases r1)
    case (Inl e)
    with Cons.prems 1 t1 show ?thesis by simp
  next
    case (Inr b)
    with Cons.prems 1 obtain out' where "copy_files d (Suc i) n fs out' w1 = (r, w')" by simp
    from touches_only_trans [OF t1 Cons.IH [OF this]] show ?thesis by simp
  qed
qed

lemma combine_texts_unfold:
  assumes "get_text_directory output_dir = Some d" "get_combinable_files d w \<noteq> []"
  shows "combine_texts output_dir w =
     (case open_write (d, outfilename_all (py_int (clock w (clock_reads w))))
             (w\<lparr>clock_reads := Suc (clock_reads w)\<rparr>) of
        (Inl e, w2) \<Rightarrow> (None, w2)
      | (Inr u, w2) \<Rightarrow>
          (case copy_files d 0 (length (get_combinable_files d w))
                  (sort (get_combinable_files d w)) [] w2 of
             (Inl (e, out), w3) \<Rightarrow>
               (None, store (d, outfilename_all (py_int (clock w (clock_reads w)))) out w3)
           | (Inr out, w3) \<Rightarrow>
               (Some (d, outfilename_all (py_int (clock w (clock_reads w)))),
                store (d, outfilename_all (py_int (clock w (clock_reads w)))) out w3)))"
  using assms by (simp add: combine_texts_def Let_def time_time_def)

lemma combine_texts_touches:
  assumes "combine_texts output_dir w = (r, w')"
  shows "touches_only {g. snd g = outfilename_all (py_int (clock w (clock_reads w)))} w w'"
proof (cases "get_text_directory output_dir")
  case None
  with assms show ?thesis by (simp add: combine_texts_def)
next
  case (Some d)
  show ?thesis
  proof (cases "get_combinable_files d w = []")
    case True
    with assms Some show ?thesis by (simp add: combine_texts_def)
  next
    case False
    let ?w1 = "w\<lparr>clock_reads := Suc (clock_reads w)\<rparr>"
    let ?outp = "(d, outfilename_all (py_int (clock w (clock_reads w))))"
    let ?fs = "get_combinable_files d w"
    let ?S = "{g. snd g = outfilename_all (py_int (clock w (clock_reads w)))}"
    have m: "{?outp} \<subseteq> ?S" by simp
    have t1: "touches_only {} w ?w1" by simp
    obtain r2 w2 where 2: "open_write ?outp ?w1 = (r2, w2)" by (cases "open_write ?outp ?w1")
    have t2: "touches_only ?S w w2"
      using touches_only_trans [OF t1 open_write_touches [OF 2]] m by simp
    obtain r3 w3 where 3: "copy_files d 0 (length ?fs) (sort ?fs) [] w2 = (r3, w3)"
      by (cases "copy_files d 0 (length ?fs) (sort ?fs) [] w2")
    have t3: "touches_only ?S w w3"
      using touches_only_trans [OF t2 copy_files_touches [OF 3]] by simp
    have t4: "touches_only ?S w (store ?outp b w3)" for b
      using touches_only_trans [OF t3 store_touches] m by simp
    from assms 2 3 t2 t4 show ?thesis
      unfolding combine_texts_unfold [OF Some False]
      by (auto split: sum.splits prod.splits)
  qed
qed

lemma write_file_content_touches:
  "write_file_content rt f out w = (r, w') \<Longrightarrow> touches_only {} w w'"
  by (auto simp: write_file_content_def Let_def split: prod.splits sum.splits
      dest: read_text_touches)

lemma headers_loop_touches:
  "headers_loop rt d i n fs out w = (r, w') \<Longrightarrow> touches_only {} w w'"
proof (induction fs arbitrary: i out w)
  case Nil
  then show ?case by simp
next
  case (Cons f fs)
  show ?case
  proof (cases "write_file_separator rt (i + 1) f out")
    case (Inl x)
    with Cons.prems show ?thesis by simp
  next
    case (Inr out1)
    obtain r1 w1 where 1: "write_file_content rt (d, f) out1 w = (r1, w1)"
      by (cases "write_file_content rt (d, f) out1 w")
    note t1 = write_file_content_touches [OF 1]
    show ?thesis
    proof (cases r1)
      case (Inl x)
      with Cons.prems Inr 1 t1 show ?thesis by simp
    next
      case r1: (Inr out2)
      show ?thesis
      proof (cases "if int i < int n - 1
                      then text_write rt [str ''\<newline>'' @ replicate 40 45 @ str ''\<newline>\<newline>''] out2
                      else Inr out2")
        case (Inl x)
        with Cons.prems Inr 1 r1 t1 show ?thesis by simp
      next
        case (Inr out3)
        with Cons.prems \<open>write_file_separator rt (i + 1) f out = Inr out1\<close> 1 r1
        have "headers_loop rt d (Suc i) n fs out3 w1 = (r, w')" by simp
        from touches_only_trans [OF t1 Cons.IH [OF this]] show ?thesis by simp
      qed
    qed
  qed
qed

lemma combine_texts_with_headers_unfold:
  assumes "get_text_directory output_dir = Some d" "get_combinable_files d w \<noteq> []"
    "pre = (if output_dir = str ''texts'' then str ''cleaned'' else str ''raw'')"
    "outp = (d, outfilename_headers pre (py_int (clock w (clock_reads w))))"
  shows "combine_texts_with_headers rt output_dir w =
     (case open_write outp (w\<lparr>clock_reads := Suc (clock_reads w)\<rparr>) of
        (Inl e, w2) \<Rightarrow> (None, w2)
      | (Inr u, w2) \<Rightarrow>
          (case write_combined_file_header rt pre (length (get_combinable_files d w)) [] w2 of
             (Inl (e, out), w3) \<Rightarrow> (None, store outp out w3)
           | (Inr out, w3) \<Rightarrow>
               (case headers_loop rt d 0 (length (get_combinable_files d w))
                       (sort (get_combinable_files d w)) out w3 of
                  (Inl (e, out'), w4) \<Rightarrow> (None, store outp out' w4)
                | (Inr out', w4) \<Rightarrow> (Some outp, store outp out' w4))))"
  unfolding assms(3,4) using assms(1,2)
  by (simp add: combine_texts_with_headers_def Let_def time_time_def split del: if_split)

lemma write_combined_file_header_touches:
  "write_combined_file_header rt pre n out w = (r, w') \<Longrightarrow> touches_only {} w w'"
  by (auto simp: write_combined_file_header_def time_time_def)

lemma combine_texts_with_headers_touches:
  assumes "combine_texts_with_headers rt output_dir w = (r, w')"
  shows "touches_only {g. snd g = outfilename_headers
           (if output_dir = str ''texts'' then str ''cleaned'' else str ''raw'')
           (py_int (clock w (clock_reads w)))} w w'"
proof (cases "get_text_directory output_dir")
  case None
  with assms show ?thesis by (simp add: combine_texts_with_headers_def)
next
  case (Some d)
  show ?thesis
  proof (cases "get_combinable_files d w = []")
    case True
    with assms Some show ?thesis by (simp add: combine_texts_with_headers_def Let_def)
  next
    case False
    let ?pre = "if output_dir = str ''texts'' then str ''cleaned'' else str ''raw''"
    let ?w1 = "w\<lparr>clock_reads := Suc (clock_reads w)\<rparr>"
    let ?outp = "(d, outfilename_headers ?pre (py_int (clock w (clock_reads w))))"
    let ?fs = "get_combinable_files d w"
    let ?S = "{g. snd g = outfilename_headers ?pre (py_int (clock w (clock_reads w)))}"
    have m: "{?outp} \<subseteq> ?S" by simp
    have t1: "touches_only {} w ?w1" by simp
    obtain r2 w2 where 2: "open_write ?outp ?w1 = (r2, w2)" by (cases "open_write ?outp ?w1")
    have t2: "touches_only ?S w w2"
      using touches_only_trans [OF t1 open_write_touches [OF 2]] m by simp
    obtain r3 w3 where 3: "write_combined_file_header rt ?pre (length ?fs) [] w2 = (r3, w3)"
      by (cases "write_combined_file_header rt ?pre (length ?fs) [] w2")
    have t3: "touches_only ?S w w3"
      using touches_only_trans [OF t2 write_combined_file_header_touches [OF 3]] by simp
    have t3s: "touches_only ?S w (store ?outp b w3)" for b
      using touches_only_trans [OF t3 store_touches] m by simp
    have t4s: "touches_only ?S w (store ?outp b w4)"
      if "headers_loop rt d 0 (length ?fs) (sort ?fs) out w3 = (r4, w4)" for b out r4 w4
    proof -
      have "touches_only ?S w w4"
        using touches_only_trans [OF t3 headers_loop_touches [OF that]] by simp
      from touches_only_trans [OF this store_touches] m show ?thesis by simp
    qed
    from assms 2 3 t2 t3s t4s show ?thesis
      unfolding combine_texts_with_headers_unfold [OF Some False refl refl]
      by (auto split: sum.splits prod.splits)
  qed
qed

lemma process_loop_counts:
  "process_loop rt ps (s, f, e, pf) w = ((s', f', e', pf'), w') \<Longrightarrow>
   s' + f' = s + f + length ps \<and> length pf' + s = length pf + s' \<and>
   length e' + f \<le> length e + f' \<and> s \<le> s' \<and> f \<le> f'"
proof (induction ps arbitrary: s f e pf w)
  case Nil
  then show ?case by simp
next
  case (Cons p ps)
  obtain success msg w1 where 1: "extract_text_from_image rt p w = ((success, msg), w1)"
    by (cases "extract_text_from_image rt p w") auto
  show ?case
  proof (cases success)
    case True
    with Cons.prems 1
    have "process_loop rt ps (s + 1, f, e, pf @ [p]) w1 = ((s', f', e', pf'), w')" by simp
    from Cons.IH [OF this] show ?thesis by simp
  next
    case False
    define e1 where "e1 = (case msg of None \<Rightarrow> e | Some m \<Rightarrow> if m \<noteq> [] then e @ [m] else e)"
    have le: "length e1 \<le> length e + 1" by (simp add: e1_def split: option.splits)
    from False Cons.prems 1
    have "process_loop rt ps (s, f + 1, e1, pf) w1 = ((s', f', e', pf'), w')"
      by (simp add: e1_def)
    from Cons.IH [OF this] le show ?thesis by simp
  qed
qed

lemma artifacts_mono_exists:
  "touches_only F w w' \<Longrightarrow> path_exists g w \<Longrightarrow> path_exists g w'"
  unfolding touches_only_def by blast

lemma touches_only_content:
  "touches_only F w w' \<Longrightarrow> g \<notin> F \<Longrightarrow> file_content g w' = file_content g w"
  unfolding touches_only_def by blast

lemma process_loop_touches:
  "process_loop rt ps acc w = (acc', w') \<Longrightarrow> touches_only (\<Union>p\<in>set ps. artifacts p) w w'"
proof (induction ps arbitrary: acc w)
  case Nil
  then show ?case by simp
next
  case (Cons p ps)
  obtain s f e pf where acc: "acc = (s, f, e, pf)" by (cases acc)
  obtain success msg w1 where 1: "extract_text_from_image rt p w = ((success, msg), w1)"
    by (cases "extract_text_from_image rt p w") auto
  note t1 = extract_touches [OF 1]
  from Cons.prems acc 1 obtain acc1 where "process_loop rt ps acc1 w1 = (acc', w')"
    by (cases success) auto
  from touches_only_trans [OF t1 Cons.IH [OF this]] show ?case by simp
qed

lemma process_loop_skipped:
  assumes "process_loop rt ps (s, f, e, pf) w = ((s', f', e', pf'), w')"
    and "path_exists (TextsDir, stem p @ str ''.txt'') w"
    and "path_exists (RawTextsDir, stem p @ str ''.txt'') w"
    and "p \<in> set ps \<union> set pf"
  shows "p \<in> set pf'"
  using assms
proof (induction ps arbitrary: s f e pf w)
  case Nil
  then show ?case by simp
next
  case (Cons q ps)
  obtain success msg w1 where 1: "extract_text_from_image rt q w = ((success, msg), w1)"
    by (cases "extract_text_from_image rt q w") auto
  note t1 = extract_touches [OF 1]
  have ex: "path_exists (TextsDir, stem p @ str ''.txt'') w1"
    "path_exists (RawTextsDir, stem p @ str ''.txt'') w1"
    using t1 Cons.prems(2,3) by (auto intro: artifacts_mono_exists)
  show ?case
  proof (cases "q = p")
    case True
    with 1 Cons.prems(2,3) have "success" by (simp add: extract_skip)
    with Cons.prems(1) 1 True
    have "process_loop rt ps (s + 1, f, e, pf @ [p]) w1 = ((s', f', e', pf'), w')" by simp
    from Cons.IH [OF this ex] show ?thesis by simp
  next
    case False
    with Cons.prems(4) have m: "p \<in> set ps \<union> set pf" by auto
    show ?thesis
    proof (cases success)
      case True
      with Cons.prems(1) 1
      have "process_loop rt ps (s + 1, f, e, pf @ [q]) w1 = ((s', f', e', pf'), w')" by simp
      from Cons.IH [OF this ex] m show ?thesis by simp
    next
      case False
      with Cons.prems(1) 1 obtain e1 where
        "process_loop rt ps (s, f + 1, e1, pf) w1 = ((s', f', e', pf'), w')" by simp
      from Cons.IH [OF this ex] m show ?thesis by simp
    qed
  qed
qed

lemma artifacts_other_stem: "stem q \<noteq> stem p \<Longrightarrow> artifacts q \<inter> artifacts p = {}"
  by (simp add: artifacts_def)

lemma process_loop_keeps:
  assumes "process_loop rt ps acc w = (acc', w')"
    and "path_exists (TextsDir, stem p @ str ''.txt'') w"
    and "path_exists (RawTextsDir, stem p @ str ''.txt'') w"
    and "g \<in> artifacts p"
  shows "file_content g w' = file_content g w"
  using assms(1,2,3)
proof (induction ps arbitrary: acc w)
  case Nil
  then show ?case by simp
next
  case (Cons q ps)
  obtain s f e pf where acc: "acc = (s, f, e, pf)" by (cases acc)
  obtain success msg w1 where 1: "extract_text_from_image rt q w = ((success, msg), w1)"
    by (cases "extract_text_from_image rt q w") auto
  note t1 = extract_touches [OF 1]
  have ex: "path_exists (TextsDir, stem p @ str ''.txt'') w1"
    "path_exists (RawTextsDir, stem p @ str ''.txt'') w1"
    using t1 Cons.prems(2,3) by (auto intro: artifacts_mono_exists)
  have same: "file_content g w1 = file_content g w"
  proof (cases "stem q = stem p")
    case True
    with 1 Cons.prems(2,3) show ?thesis by (simp add: extract_skip)
  next
    case False
    with assms(4) have "g \<notin> artifacts q" using artifacts_other_stem by blast
    with t1 show ?thesis by (rule touches_only_content)
  qed
  from Cons.prems(1) acc 1 obtain acc1 where "process_loop rt ps acc1 w1 = (acc', w')"
    by (cases success) auto
  from Cons.IH [OF this ex] same show ?case by simp
qed

lemma startswith_outfilename_all: "startswith (outfilename_all t) (str ''combined_'')"
  by (simp add: startswith_def outfilename_all_def str_def)

lemma startswith_outfilename_headers: "startswith (outfilename_headers p t) (str ''combined_'')"
  by (simp add: startswith_def outfilename_headers_def str_def)

lemma note_call_simps [simp]:
  "file_content g (note_call c w) = file_content g w"
  "path_exists g (note_call c w) = path_exists g w"
  "images (note_call c w) = images w"
  "calls (note_call c w) = calls w @ [c]"
  by (simp_all add: note_call_def file_content_def path_exists_def dir_of_def split: dirsel.splits)

lemma combine_step:
  assumes "w' = snd (combine_texts od (note_call c w)) \<or>
           w' = snd (combine_texts_with_headers rt od (note_call c w))"
  shows "(g \<notin> combined_files \<longrightarrow> file_content g w' = file_content g w) \<and>
         (path_exists g w \<longrightarrow> path_exists g w') \<and>
         calls w' = calls w @ [c] \<and> images w' = images w"
proof -
  from assms obtain S where t: "touches_only S (note_call c w) w'" and S: "S \<subseteq> combined_files"
  proof
    assume a: "w' = snd (combine_texts od (note_call c w))"
    obtain r where "combine_texts od (note_call c w) = (r, w')"
      using a by (cases "combine_texts od (note_call c w)") simp
    from combine_texts_touches [OF this] show ?thesis
      by (rule that) (auto simp: combined_files_def startswith_outfilename_all)
  next
    assume a: "w' = snd (combine_texts_with_headers rt od (note_call c w))"
    obtain r where "combine_texts_with_headers rt od (note_call c w) = (r, w')"
      using a by (cases "combine_texts_with_headers rt od (note_call c w)") simp
    from combine_texts_with_headers_touches [OF this] show ?thesis
      by (rule that) (auto simp: combined_files_def startswith_outfilename_headers)
  qed
  have 1: "g \<notin> combined_files \<Longrightarrow> file_content g w' = file_content g w"
    using touches_only_content [OF t, of g] S by auto
  have 2: "path_exists g w \<Longrightarrow> path_exists g w'"
    using artifacts_mono_exists [OF t, of g] by simp
  have 3: "calls w' = calls w @ [c]" "images w' = images w"
    using t by (simp_all add: touches_only_def)
  from 1 2 3 show ?thesis by blast
qed

lemma handle_text_combination_frame:
  "(g \<notin> combined_files \<longrightarrow>
      file_content g (handle_text_combination rt cfg w) = file_content g w) \<and>
   (path_exists g w \<longrightarrow> path_exists g (handle_text_combination rt cfg w)) \<and>
   HandleTextCombination \<in> set (calls (handle_text_combination rt cfg w)) \<and>
   images (handle_text_combination rt cfg w) = images w"
proof -
  define w0 where "w0 = note_call HandleTextCombination w"
  define w1 where "w1 =
     (if combine_texts_option cfg
      then (if include_headers cfg
            then snd (combine_texts_with_headers rt (str ''texts'')
                        (note_call (CombineTextsWithHeaders (str ''texts'')) w0))
            else snd (combine_texts (str ''texts'')
                        (note_call (CombineTexts (str ''texts'')) w0)))
      else w0)"
  define w2 where "w2 =
     (if combine_raw cfg
      then (if include_headers cfg
            then snd (combine_texts_with_headers rt (str ''raw_texts'')
                        (note_call (CombineTextsWithHeaders (str ''raw_texts'')) w1))
            else snd (combine_texts (str ''raw_texts'')
                        (note_call (CombineTexts (str ''raw_texts'')) w1)))
      else w1)"
  have h: "handle_text_combination rt cfg w = w2"
    by (simp add: handle_text_combination_def w2_def w1_def w0_def Let_def)
  have s0: "(g \<notin> combined_files \<longrightarrow> file_content g w0 = file_content g w) \<and>
         (path_exists g w \<longrightarrow> path_exists g w0) \<and>
         HandleTextCombination \<in> set (calls w0) \<and> images w0 = images w"
    by (simp add: w0_def)
  have s1: "(g \<notin> combined_files \<longrightarrow> file_content g w1 = file_content g w0) \<and>
         (path_exists g w0 \<longrightarrow> path_exists g w1) \<and>
         set (calls w0) \<subseteq> set (calls w1) \<and> images w1 = images w0"
    unfolding w1_def
    using combine_step [of _ "str ''texts''" _ w0 rt g, OF disjI1 [OF refl]]
      combine_step [of _ "str ''texts''" _ w0 rt g, OF disjI2 [OF refl]]
    by auto
  have s2: "(g \<notin> combined_files \<longrightarrow> file_content g w2 = file_content g w1) \<and>
         (path_exists g w1 \<longrightarrow> path_exists g w2) \<and>
         set (calls w1) \<subseteq> set (calls w2) \<and> images w2 = images w1"
    unfolding w2_def
    using combine_step [of _ "str ''raw_texts''" _ w1 rt g, OF disjI1 [OF refl]]
      combine_step [of _ "str ''raw_texts''" _ w1 rt g, OF disjI2 [OF refl]]
    by auto
  from s0 s1 s2 show ?thesis unfolding h by auto
qed

lemma initialize_service_touches:
  "initialize_service w = (r, w') \<Longrightarrow> touches_only {} w w'"
proof -
  assume a: "initialize_service w = (r, w')"
  obtain f w1 where 1: "next_fault w = (f, w1)" by (cases "next_fault w")
  note t1 = next_fault_touches [OF 1]
  have "touches_only {} w (w1\<lparr>service := True\<rparr>)"
    using touches_only_trans [OF t1 service_update_untouched] by simp
  with a 1 t1 show ?thesis by (auto simp: initialize_service_def split: option.splits)
qed

lemma process_all_images_cases:
  assumes "process_all_images rt cfg w = (Inr r, w')"
  obtains (none) w0 where "touches_only {} w w0" "get_image_files rt cfg (images w) = []"
      "r = \<lparr>total = 0, successful = 0, failed = 0, errors = [], processed_files = []\<rparr>" "w' = w0"
    | (some) w0 s f e pf w1 where "touches_only {} w w0"
      "get_image_files rt cfg (images w) \<noteq> []"
      "process_loop rt (get_image_files rt cfg (images w)) (0, 0, [], []) w0 = ((s, f, e, pf), w1)"
      "r = \<lparr>total = length (get_image_files rt cfg (images w)), successful = s, failed = f,
            errors = e, processed_files = pf\<rparr>"
      "w' = (if s > 0 then handle_text_combination rt cfg w1 else w1)"
proof -
  obtain r0 w0 where 0: "(if service w then (Inr (), w) else initialize_service w) = (r0, w0)"
    by (cases "if service w then (Inr (), w) else initialize_service w")
  have t0: "touches_only {} w w0"
    using 0 by (cases "service w") (auto dest: initialize_service_touches)
  then have im: "images w0 = images w" by (simp add: touches_only_def)
  from assms 0 obtain u where r0: "r0 = Inr u"
    by (cases r0) (auto simp: process_all_images_def)
  show ?thesis
  proof (cases "get_image_files rt cfg (images w) = []")
    case True
    with assms 0 r0 im have
      "r = \<lparr>total = 0, successful = 0, failed = 0, errors = [], processed_files = []\<rparr>" "w' = w0"
      by (auto simp: process_all_images_def Let_def)
    with t0 True show ?thesis by (rule none)
  next
    case False
    obtain s f e pf w1 where
      l: "process_loop rt (get_image_files rt cfg (images w)) (0, 0, [], []) w0 = ((s, f, e, pf), w1)"
      by (cases "process_loop rt (get_image_files rt cfg (images w)) (0, 0, [], []) w0") auto
    with assms 0 r0 im False have
      "r = \<lparr>total = length (get_image_files rt cfg (images w)), successful = s, failed = f,
            errors = e, processed_files = pf\<rparr>"
      "w' = (if s > 0 then handle_text_combination rt cfg w1 else w1)"
      by (auto simp: process_all_images_def Let_def)
    with t0 False l show ?thesis by (rule some)
  qed
qed

end
